theory Spec2Isabelle
  imports Main "HOL-Library.Sublist" "HOL-Library.Word"
begin

section \<open>JSON documents\<close>

text \<open>
  The values \<^verbatim>\<open>json.load\<close> produces: \<^verbatim>\<open>None\<close>, booleans, integers (unbounded),
  floats (the 64 bits of the IEEE double; \<^verbatim>\<open>walk\<close> never looks inside one), strings, lists
  and dictionaries with string keys. A dictionary is the list of its items in iteration
  (insertion) order, which is also the order \<^verbatim>\<open>json.dump\<close> writes them in; the keys of a
  decoded dictionary are distinct. A string is the list of its characters, which the walk
  only compares with the ASCII characters of the two prefixes.
\<close>

datatype json =
    JNull
  | JBool bool
  | JInt int
  | JFloat "64 word"
  | JStr string
  | JList "json list"
  | JDict "(string \<times> json) list"

section \<open>The string operations used on keys\<close>

text \<open>\<^verbatim>\<open>s.startswith(p)\<close>.\<close>

definition startswith :: "string \<Rightarrow> string \<Rightarrow> bool" where
  "startswith s p = prefix p s"

text \<open>
  \<^verbatim>\<open>s.replace(old, new)\<close> with no count: every non-overlapping occurrence of \<open>old\<close>,
  scanning from the left, is replaced by \<open>new\<close>. For an empty \<open>old\<close> Python puts \<open>new\<close> before
  every character and at the end.
\<close>

fun replace :: "string \<Rightarrow> string \<Rightarrow> string \<Rightarrow> string" where
  "replace old new [] = (if old = [] then new else [])"
| "replace old new (c # cs) =
     (if old = [] then new @ c # replace old new cs
      else if prefix old (c # cs) then new @ replace old new (drop (length old - 1) cs)
      else c # replace old new cs)"

text \<open>The two literals of \<^verbatim>\<open>walk\<close>.\<close>

definition OLD :: string where
  "OLD = ''bloqade.''"

definition NEW :: string where
  "NEW = ''bloqade.analog.''"

section \<open>Dictionary assignment\<close>

text \<open>
  \<^verbatim>\<open>d[k] = v\<close>: a key already present keeps its position and gets the new value, a new
  key goes to the end.
\<close>

fun setitem :: "('k \<times> 'v) list \<Rightarrow> 'k \<Rightarrow> 'v \<Rightarrow> ('k \<times> 'v) list" where
  "setitem [] k v = [(k, v)]"
| "setitem ((k', v') # d) k v = (if k' = k then (k, v) # d else (k', v') # setitem d k v)"

section \<open>The tree walk\<close>

text \<open>
  \<^verbatim>\<open>walk\<close> of \<^verbatim>\<open>migrate.py\<close>, on a JSON document: the \<^verbatim>\<open>for\<close> loop over
  \<^verbatim>\<open>data.items()\<close> is a left fold that starts from the empty \<^verbatim>\<open>new_dict\<close>, with the
  three branches of the \<^verbatim>\<open>if\<close> in the order of the source.
\<close>

fun walk :: "json \<Rightarrow> json" where
  "walk (JDict items) =
     JDict (foldl (\<lambda>new_dict (key, value).
        if startswith key NEW then setitem new_dict key (walk value)
        else if startswith key OLD then setitem new_dict (replace OLD NEW key) (walk value)
        else setitem new_dict key (walk value)) [] items)"
| "walk (JList xs) = JList (map walk xs)"
| "walk data = data"

text \<open>The key under which one iteration of the loop stores its value.\<close>

definition migrate_key :: "string \<Rightarrow> string" where
  "migrate_key key =
     (if startswith key NEW then key
      else if startswith key OLD then replace OLD NEW key
      else key)"

text \<open>The assignments of a loop, one after the other, on a dictionary \<open>d\<close>.\<close>

fun assign_all :: "('k \<times> 'v) list \<Rightarrow> ('k \<times> 'v) list \<Rightarrow> ('k \<times> 'v) list" where
  "assign_all d [] = d"
| "assign_all d ((k, v) # kvs) = assign_all (setitem d k v) kvs"

text \<open>The items of a dictionary with each key migrated and each value walked, in order.\<close>

definition renamed :: "(string \<times> json) list \<Rightarrow> (string \<times> json) list" where
  "renamed items = map (\<lambda>(key, value). (migrate_key key, walk value)) items"

section \<open>Shape of a document\<close>

text \<open>
  \<open>same_shape x y\<close>: \<open>y\<close> is \<open>x\<close> up to the renaming of keys. Scalars are equal, lists have
  the same length and their elements correspond in order, dictionaries have the same number
  of items and the items correspond in order, the key of each item of \<open>y\<close> being the migrated
  key of the item of \<open>x\<close>.
\<close>

fun same_shape :: "json \<Rightarrow> json \<Rightarrow> bool"
  and same_shape_list :: "json list \<Rightarrow> json list \<Rightarrow> bool"
  and same_shape_items :: "(string \<times> json) list \<Rightarrow> (string \<times> json) list \<Rightarrow> bool" where
  "same_shape (JList xs) y = (case y of JList ys \<Rightarrow> same_shape_list xs ys | _ \<Rightarrow> False)"
| "same_shape (JDict items) y =
     (case y of JDict items' \<Rightarrow> same_shape_items items items' | _ \<Rightarrow> False)"
| "same_shape JNull y = (y = JNull)"
| "same_shape (JBool b) y = (y = JBool b)"
| "same_shape (JInt i) y = (y = JInt i)"
| "same_shape (JFloat f) y = (y = JFloat f)"
| "same_shape (JStr s) y = (y = JStr s)"
| "same_shape_list [] ys = (ys = [])"
| "same_shape_list (x # xs) ys =
     (case ys of [] \<Rightarrow> False | y # ys' \<Rightarrow> same_shape x y \<and> same_shape_list xs ys')"
| "same_shape_items [] items' = (items' = [])"
| "same_shape_items ((k, v) # items) items' =
     (case items' of [] \<Rightarrow> False
      | (k', v') # rest \<Rightarrow> k' = migrate_key k \<and> same_shape v v' \<and> same_shape_items items rest)"

text \<open>
  No dictionary of the document has two items whose keys migrate to the same key.
\<close>

fun collision_free :: "json \<Rightarrow> bool" where
  "collision_free (JDict items) =
     (distinct (map (\<lambda>(k, v). migrate_key k) items) \<and> list_all (\<lambda>(k, v). collision_free v) items)"
| "collision_free (JList xs) = list_all collision_free xs"
| "collision_free data = True"

text \<open>A string occurs inside another one.\<close>

fun contains :: "string \<Rightarrow> string \<Rightarrow> bool" where
  "contains [] p = (p = [])"
| "contains (c # cs) p = (prefix p (c # cs) \<or> contains cs p)"

section \<open>The walk on arbitrary Python values, with the interpreter's stack\<close>

text \<open>
  \<^verbatim>\<open>walk\<close> is untyped and recursive, and two things in it can raise.

  On Python values whose dictionaries may have keys that are not strings,
  \<^verbatim>\<open>key.startswith\<close> raises \<^verbatim>\<open>AttributeError\<close> at the first such key, before the value is
  walked. \<open>new_dict\<close> only ever receives string keys.

  \<^verbatim>\<open>walk\<close> calls itself once for every level of nesting and has no guard on the depth:
  the interpreter raises \<^verbatim>\<open>RecursionError\<close> at a call for which no frame is left. \<open>n\<close> is the
  number of frames the interpreter still allows when \<^verbatim>\<open>walk\<close> is called (at most
  \<^verbatim>\<open>sys.getrecursionlimit()\<close>, 1000 unless changed, which the script does not do). Every call
  of \<^verbatim>\<open>walk\<close> takes one frame, whatever the value. The list comprehension of line 20 takes
  \<open>c\<close> frames of its own: one in the interpreters that run a comprehension as a nested
  function (CPython up to 3.11), none in those that inline it (from 3.12).
\<close>

datatype pyval =
    PNone
  | PBool bool
  | PInt int
  | PFloat "64 word"
  | PStr string
  | PList "pyval list"
  | PDict "(pyval \<times> pyval) list"

datatype exn = AttributeError | RecursionError | FileNotFoundError | JSONDecodeError string

fun walk_py :: "nat \<Rightarrow> nat \<Rightarrow> pyval \<Rightarrow> exn + pyval"
  and walk_py_items ::
    "nat \<Rightarrow> nat \<Rightarrow> (string \<times> pyval) list \<Rightarrow> (pyval \<times> pyval) list \<Rightarrow> exn + (string \<times> pyval) list"
  and walk_py_list :: "nat \<Rightarrow> nat \<Rightarrow> pyval list \<Rightarrow> exn + pyval list" where
  "walk_py c 0 data = Inl RecursionError"
| "walk_py c (Suc n) (PDict items) =
     (case walk_py_items c n [] items of
        Inl e \<Rightarrow> Inl e
      | Inr new_dict \<Rightarrow> Inr (PDict (map (\<lambda>(k, v). (PStr k, v)) new_dict)))"
| "walk_py c (Suc n) (PList xs) =
     (if n < c then Inl RecursionError
      else (case walk_py_list c (n - c) xs of Inl e \<Rightarrow> Inl e | Inr ys \<Rightarrow> Inr (PList ys)))"
| "walk_py c (Suc n) PNone = Inr PNone"
| "walk_py c (Suc n) (PBool b) = Inr (PBool b)"
| "walk_py c (Suc n) (PInt i) = Inr (PInt i)"
| "walk_py c (Suc n) (PFloat f) = Inr (PFloat f)"
| "walk_py c (Suc n) (PStr s) = Inr (PStr s)"
| "walk_py_items c n new_dict [] = Inr new_dict"
| "walk_py_items c n new_dict ((key, value) # rest) =
     (case key of
        PStr s \<Rightarrow>
          (if startswith s NEW then
             (case walk_py c n value of Inl e \<Rightarrow> Inl e
              | Inr v \<Rightarrow> walk_py_items c n (setitem new_dict s v) rest)
           else if startswith s OLD then
             (case walk_py c n value of Inl e \<Rightarrow> Inl e
              | Inr v \<Rightarrow> walk_py_items c n (setitem new_dict (replace OLD NEW s) v) rest)
           else
             (case walk_py c n value of Inl e \<Rightarrow> Inl e
              | Inr v \<Rightarrow> walk_py_items c n (setitem new_dict s v) rest))
      | _ \<Rightarrow> Inl AttributeError)"
| "walk_py_list c n [] = Inr []"
| "walk_py_list c n (x # xs) =
     (case walk_py c n x of Inl e \<Rightarrow> Inl e
      | Inr y \<Rightarrow> (case walk_py_list c n xs of Inl e \<Rightarrow> Inl e | Inr ys \<Rightarrow> Inr (y # ys)))"

text \<open>A JSON document as the Python value it is.\<close>

fun to_py :: "json \<Rightarrow> pyval" where
  "to_py JNull = PNone"
| "to_py (JBool b) = PBool b"
| "to_py (JInt i) = PInt i"
| "to_py (JFloat f) = PFloat f"
| "to_py (JStr s) = PStr s"
| "to_py (JList xs) = PList (map to_py xs)"
| "to_py (JDict items) = PDict (map (\<lambda>(k, v). (PStr k, to_py v)) items)"

text \<open>
  The frames the walk of a document needs: one for the call, those of the comprehension for
  a list, and the most that any element or value needs.
\<close>

fun frames :: "nat \<Rightarrow> json \<Rightarrow> nat" where
  "frames c (JDict items) = Suc (foldr max (map (\<lambda>(k, v). frames c v) items) 0)"
| "frames c (JList xs) = Suc (c + foldr max (map (frames c) xs) 0)"
| "frames c data = Suc 0"

text \<open>The document \<^verbatim>\<open>[[...[null]...]]\<close> with \<open>d\<close> pairs of brackets.\<close>

fun nest :: "nat \<Rightarrow> json" where
  "nest 0 = JNull"
| "nest (Suc d) = JList [nest d]"

section \<open>The loop over the files\<close>

text \<open>
  The file system is a map from paths to contents. \<^verbatim>\<open>json.load\<close> and \<^verbatim>\<open>json.dump\<close>
  belong to the standard library and are parameters: \<open>load\<close> returns the document or the
  exception it raises, \<open>dump\<close> the text written. One iteration of the module-level loop
  opens the file for reading, parses, walks, and only then opens it for writing. Opening a
  path that does not exist raises \<^verbatim>\<open>FileNotFoundError\<close>. The write is one step of the model:
  \<open>dump\<close> is total, and a crash between truncating the file and the end of the write is not
  modelled.
\<close>

type_synonym filesystem = "string \<rightharpoonup> string"

definition migrate_file ::
  "(string \<Rightarrow> exn + json) \<Rightarrow> (json \<Rightarrow> string) \<Rightarrow> filesystem \<Rightarrow> string \<Rightarrow> filesystem \<times> (exn + unit)" where
  "migrate_file load dump fs file =
     (case fs file of
        None \<Rightarrow> (fs, Inl FileNotFoundError)
      | Some text \<Rightarrow>
          (case load text of
             Inl e \<Rightarrow> (fs, Inl e)
           | Inr data \<Rightarrow> (let new_data = walk data in (fs(file \<mapsto> dump new_data), Inr ()))))"

text \<open>The loop stops at the first exception, which ends the script.\<close>

fun migrate_files ::
  "(string \<Rightarrow> exn + json) \<Rightarrow> (json \<Rightarrow> string) \<Rightarrow> filesystem \<Rightarrow> string list \<Rightarrow> filesystem \<times> (exn + unit)" where
  "migrate_files load dump fs [] = (fs, Inr ())"
| "migrate_files load dump fs (file # files) =
     (case migrate_file load dump fs file of
        (fs', Inl e) \<Rightarrow> (fs', Inl e)
      | (fs', Inr u) \<Rightarrow> migrate_files load dump fs' files)"

section \<open>Auxiliary facts\<close>

subsection \<open>The loop of the dictionary branch\<close>

lemma walk_fold:
  "foldl (\<lambda>new_dict (key, value).
        if startswith key NEW then setitem new_dict key (walk value)
        else if startswith key OLD then setitem new_dict (replace OLD NEW key) (walk value)
        else setitem new_dict key (walk value)) d items = assign_all d (renamed items)"
  by (induction items arbitrary: d) (auto simp: renamed_def migrate_key_def)

lemma walk_JDict: "walk (JDict items) = JDict (assign_all [] (renamed items))"
  by (simp only: walk.simps walk_fold)

declare walk.simps(1) [simp del]

lemma map_of_setitem: "map_of (setitem d k v) = (map_of d)(k \<mapsto> v)"
  by (induction d k v rule: setitem.induct) auto

lemma keys_setitem: "fst ` set (setitem d k v) = insert k (fst ` set d)"
  by (induction d k v rule: setitem.induct) auto

lemma setitem_fresh: "k \<notin> fst ` set d \<Longrightarrow> setitem d k v = d @ [(k, v)]"
  by (induction d k v rule: setitem.induct) auto

lemma distinct_setitem: "distinct (map fst d) \<Longrightarrow> distinct (map fst (setitem d k v))"
  by (induction d k v rule: setitem.induct) (auto simp: keys_setitem)

lemma set_setitem: "set (setitem d k v) \<subseteq> insert (k, v) (set d)"
  by (induction d k v rule: setitem.induct) auto

lemma map_of_assign_all: "map_of (assign_all d kvs) = map_of d ++ map_of (rev kvs)"
proof (induction d kvs rule: assign_all.induct)
  case (2 d k v kvs)
  then show ?case
    by (simp add: map_of_setitem fun_eq_iff map_add_def split: option.splits)
qed simp

lemma keys_assign_all: "fst ` set (assign_all d kvs) = fst ` set d \<union> fst ` set kvs"
  by (induction d kvs rule: assign_all.induct) (auto simp: keys_setitem)

lemma distinct_assign_all: "distinct (map fst d) \<Longrightarrow> distinct (map fst (assign_all d kvs))"
  by (induction d kvs rule: assign_all.induct) (auto simp: distinct_setitem)

lemma set_assign_all: "set (assign_all d kvs) \<subseteq> set d \<union> set kvs"
proof (induction d kvs rule: assign_all.induct)
  case (2 d k v kvs)
  then show ?case using set_setitem [of d k v] by auto
qed simp

lemma assign_all_fresh: "distinct (map fst (d @ kvs)) \<Longrightarrow> assign_all d kvs = d @ kvs"
proof (induction d kvs rule: assign_all.induct)
  case (2 d k v kvs)
  then show ?case by (auto simp: setitem_fresh)
qed simp

lemma replace_prefix:
  "old \<noteq> [] \<Longrightarrow> prefix old s \<Longrightarrow> prefix new (replace old new s)"
  by (cases s) auto

lemma prefix_OLD_NEW: "prefix OLD NEW"
  by (simp add: OLD_def NEW_def)

lemma migrate_key_cases:
  "startswith (migrate_key k) NEW \<or> (\<not> startswith k OLD \<and> migrate_key k = k)"
  using replace_prefix [of OLD k NEW]
  by (auto simp: migrate_key_def startswith_def OLD_def)

lemma not_OLD_not_NEW: "\<not> startswith k OLD \<Longrightarrow> \<not> startswith k NEW"
  using prefix_OLD_NEW by (auto simp: startswith_def dest: prefix_order.trans)

lemma migrate_key_idem: "migrate_key (migrate_key k) = migrate_key k"
  using migrate_key_cases [of k] by (auto simp: migrate_key_def)

subsection \<open>Dictionaries without colliding keys\<close>

lemma keys_renamed: "map fst (renamed items) = map (\<lambda>(k, v). migrate_key k) items"
  by (simp add: renamed_def case_prod_unfold)

lemma renamed_collision_free:
  "distinct (map (\<lambda>(k, v). migrate_key k) items) \<Longrightarrow> assign_all [] (renamed items) = renamed items"
  using assign_all_fresh [of "[]" "renamed items"] by (simp add: keys_renamed)

lemma same_shape_list_map:
  "(\<And>x. x \<in> set xs \<Longrightarrow> same_shape x (f x)) \<Longrightarrow> same_shape_list xs (map f xs)"
  by (induction xs) auto

lemma same_shape_items_renamed:
  "\<forall>(k, v) \<in> set items. same_shape v (walk v) \<Longrightarrow> same_shape_items items (renamed items)"
  by (induction items) (auto simp: renamed_def)

subsection \<open>Keys and the value stored under a key\<close>


lemma migrate_key_other: "\<not> startswith k OLD \<Longrightarrow> migrate_key k = k"
  by (simp add: migrate_key_def not_OLD_not_NEW)

lemma replace_at_prefix:
  "old \<noteq> [] \<Longrightarrow> prefix old s \<Longrightarrow> replace old new s = new @ replace old new (drop (length old) s)"
  by (cases s; cases old) auto

lemma replace_absent: "\<not> contains s old \<Longrightarrow> replace old new s = s"
  by (induction s) auto

lemma migrate_key_single_occurrence:
  assumes "startswith k OLD" and "\<not> startswith k NEW" and "\<not> contains (drop (length OLD) k) OLD"
  shows "migrate_key k = NEW @ drop (length OLD) k"
  using assms replace_at_prefix [of OLD k NEW]
  by (simp add: migrate_key_def startswith_def replace_absent) (simp add: OLD_def)

lemma migrate_key_to_other:
  assumes "\<not> startswith k OLD" and "migrate_key k2 = k"
  shows "k2 = k"
  using assms migrate_key_cases [of k2] not_OLD_not_NEW [of k] by auto

lemma map_of_walk_items:
  assumes mem: "(k, v) \<in> set items"
    and same: "\<And>k2 v2. (k2, v2) \<in> set items \<Longrightarrow> migrate_key k2 = migrate_key k \<Longrightarrow> v2 = v"
  shows "map_of (assign_all [] (renamed items)) (migrate_key k) = Some (walk v)"
proof -
  let ?l = "rev (renamed items)"
  from mem have "migrate_key k \<in> fst ` set ?l"
    by (force simp: renamed_def)
  then have "map_of ?l (migrate_key k) \<noteq> None"
    by (simp only: map_of_eq_None_iff not_not)
  then obtain w where w: "map_of ?l (migrate_key k) = Some w"
    by blast
  then have "(migrate_key k, w) \<in> set (renamed items)"
    by (auto dest: map_of_SomeD)
  then obtain k2 v2 where "(k2, v2) \<in> set items" "migrate_key k2 = migrate_key k" "w = walk v2"
    by (auto simp: renamed_def)
  with same have "w = walk v" by blast
  with w show ?thesis by (simp add: map_of_assign_all)
qed

lemma map_of_rev_last:
  "j < length l \<Longrightarrow> \<forall>m. j < m \<and> m < length l \<longrightarrow> fst (l ! m) \<noteq> fst (l ! j) \<Longrightarrow>
   map_of (rev l) (fst (l ! j)) = Some (snd (l ! j))"
proof (induction l rule: rev_induct)
  case Nil
  then show ?case by simp
next
  case (snoc x xs)
  show ?case
  proof (cases "j = length xs")
    case True
    then show ?thesis by (cases x) simp
  next
    case False
    with snoc.prems(1) have j: "j < length xs" by simp
    from snoc.prems(2) j have "fst ((xs @ [x]) ! length xs) \<noteq> fst ((xs @ [x]) ! j)"
      by (metis length_append_singleton lessI)
    with j have ne: "fst x \<noteq> fst (xs ! j)" by (simp add: nth_append)
    have "\<forall>m. j < m \<and> m < length xs \<longrightarrow> fst (xs ! m) \<noteq> fst (xs ! j)"
    proof (intro allI impI)
      fix m assume m: "j < m \<and> m < length xs"
      with snoc.prems(2) have "fst ((xs @ [x]) ! m) \<noteq> fst ((xs @ [x]) ! j)" by simp
      with m j show "fst (xs ! m) \<noteq> fst (xs ! j)" by (simp add: nth_append)
    qed
    with snoc.IH j have "map_of (rev xs) (fst (xs ! j)) = Some (snd (xs ! j))" by simp
    with ne j show ?thesis by (cases x) (simp add: nth_append)
  qed
qed

lemma filter_key_distinct:
  "distinct (map fst l) \<Longrightarrow> k \<in> fst ` set l \<Longrightarrow> length (filter (\<lambda>(k', v). k' = k) l) = 1"
proof (induction l)
  case Nil
  then show ?case by simp
next
  case (Cons a l)
  obtain k0 v0 where a: "a = (k0, v0)" by (cases a)
  show ?case
  proof (cases "k0 = k")
    case True
    with Cons.prems a have "filter (\<lambda>(k', v). k' = k) l = []"
      by (force simp: filter_empty_conv)
    with True a show ?thesis by simp
  next
    case False
    with Cons a show ?thesis by auto
  qed
qed

lemma length_walk_items:
  "length (assign_all [] (renamed items)) = card (set (map (\<lambda>(k, v). migrate_key k) items))"
proof -
  let ?out = "assign_all [] (renamed items)"
  have "distinct (map fst ?out)" by (simp add: distinct_assign_all)
  then have "length ?out = card (set (map fst ?out))"
    by (metis distinct_card length_map)
  also have "set (map fst ?out) = fst ` set (renamed items)"
    by (simp add: keys_assign_all)
  also have "\<dots> = set (map (\<lambda>(k, v). migrate_key k) items)"
    by (simp add: keys_renamed [symmetric])
  finally show ?thesis .
qed

subsection \<open>The walk on Python values, on a JSON document\<close>

lemma setitem_map_values:
  "setitem (map (\<lambda>(k, v). (k, f v)) d) k0 (f v0) = map (\<lambda>(k, v). (k, f v)) (setitem d k0 v0)"
  by (induction d k0 v0 rule: setitem.induct) auto

lemma foldr_max_le: "foldr max (map f xs) 0 \<le> (n::nat) \<longleftrightarrow> (\<forall>x \<in> set xs. f x \<le> n)"
  by (induction xs) auto

text \<open>
  On a JSON document the untyped walk returns what \<open>walk\<close> computes when the frames left
  are enough, and raises \<^verbatim>\<open>RecursionError\<close> when they are not.
\<close>

lemma walk_py_items_frames:
  assumes "\<forall>(k, v) \<in> set items.
             walk_py c n (to_py v) = (if frames c v \<le> n then Inr (to_py (walk v)) else Inl RecursionError)"
  shows "walk_py_items c n (map (\<lambda>(k, v). (k, to_py v)) d) (map (\<lambda>(k, v). (PStr k, to_py v)) items) =
         (if \<forall>(k, v) \<in> set items. frames c v \<le> n
          then Inr (map (\<lambda>(k, v). (k, to_py v)) (assign_all d (renamed items)))
          else Inl RecursionError)"
  using assms
proof (induction items arbitrary: d)
  case Nil
  then show ?case by (simp add: renamed_def)
next
  case (Cons a items)
  obtain k v where a: "a = (k, v)" by (cases a)
  from Cons.prems a have v:
    "walk_py c n (to_py v) = (if frames c v \<le> n then Inr (to_py (walk v)) else Inl RecursionError)"
    by simp
  show ?case
  proof (cases "frames c v \<le> n")
    case False
    with v a show ?thesis by simp
  next
    case True
    from Cons.prems have rest: "\<forall>(k, v) \<in> set items.
        walk_py c n (to_py v) = (if frames c v \<le> n then Inr (to_py (walk v)) else Inl RecursionError)"
      by simp
    have eq: "assign_all d (renamed (a # items)) =
        assign_all (setitem d (migrate_key k) (walk v)) (renamed items)"
      by (simp add: renamed_def a)
    have cond: "(\<forall>(k, v) \<in> set (a # items). frames c v \<le> n) = (\<forall>(k, v) \<in> set items. frames c v \<le> n)"
      using True a by simp
    have head: "walk_py_items c n (map (\<lambda>(k, v). (k, to_py v)) d) (map (\<lambda>(k, v). (PStr k, to_py v)) (a # items)) =
          walk_py_items c n (map (\<lambda>(k, v). (k, to_py v)) (setitem d (migrate_key k) (walk v)))
            (map (\<lambda>(k, v). (PStr k, to_py v)) items)"
      using v a True by (simp add: migrate_key_def setitem_map_values)
    have step: "walk_py_items c n (map (\<lambda>(k, v). (k, to_py v)) (setitem d (migrate_key k) (walk v)))
            (map (\<lambda>(k, v). (PStr k, to_py v)) items) =
          (if \<forall>(k, v) \<in> set items. frames c v \<le> n
           then Inr (map (\<lambda>(k, v). (k, to_py v)) (assign_all (setitem d (migrate_key k) (walk v)) (renamed items)))
           else Inl RecursionError)"
      using rest by (rule Cons.IH)
    show ?thesis by (simp only: cond head step eq)
  qed
qed

lemma walk_py_list_frames:
  "\<forall>x \<in> set xs. walk_py c n (to_py x) = (if frames c x \<le> n then Inr (to_py (walk x)) else Inl RecursionError) \<Longrightarrow>
   walk_py_list c n (map to_py xs) =
     (if \<forall>x \<in> set xs. frames c x \<le> n then Inr (map to_py (map walk xs)) else Inl RecursionError)"
  by (induction xs) auto

lemma walk_py_frames:
  "walk_py c n (to_py x) = (if frames c x \<le> n then Inr (to_py (walk x)) else Inl RecursionError)"
proof (induction x arbitrary: n)
  case (JList xs)
  show ?case
  proof (cases n)
    case 0
    then show ?thesis by simp
  next
    case (Suc m)
    show ?thesis
    proof (cases "m < c")
      case True
      with Suc show ?thesis by simp
    next
      case False
      have "c + foldr max (map (frames c) xs) 0 \<le> m \<longleftrightarrow> foldr max (map (frames c) xs) 0 \<le> m - c"
        using False by arith
      then have fr: "frames c (JList xs) \<le> Suc m \<longleftrightarrow> (\<forall>x \<in> set xs. frames c x \<le> m - c)"
        by (simp add: foldr_max_le)
      have "\<forall>x \<in> set xs. walk_py c (m - c) (to_py x) =
          (if frames c x \<le> m - c then Inr (to_py (walk x)) else Inl RecursionError)"
        using JList.IH by blast
      from walk_py_list_frames [OF this] False Suc show ?thesis
        by (simp add: fr del: frames.simps)
    qed
  qed
next
  case (JDict items)
  show ?case
  proof (cases n)
    case 0
    then show ?thesis by simp
  next
    case (Suc m)
    have "\<forall>(k, v) \<in> set items. walk_py c m (to_py v) =
        (if frames c v \<le> m then Inr (to_py (walk v)) else Inl RecursionError)"
      using JDict.IH by fastforce
    from walk_py_items_frames [OF this, of "[]"] Suc show ?thesis
      by (auto simp: walk_JDict foldr_max_le case_prod_unfold)
  qed
qed (case_tac n; simp)+

lemma frames_nest: "frames c (nest d) = Suc (d * Suc c)"
  by (induction d) simp_all

lemma walk_py_non_string_key: "walk_py c (Suc n) (PDict [(PInt 1, PNone)]) = Inl AttributeError"
  by simp

subsection \<open>Files the loop does not touch\<close>

lemma migrate_file_other:
  "migrate_file load dump fs file = (fs', r) \<Longrightarrow> p \<noteq> file \<Longrightarrow> fs' p = fs p"
  by (auto simp: migrate_file_def Let_def split: option.splits sum.splits)

lemma migrate_files_other:
  "migrate_files load dump fs files = (fs', r) \<Longrightarrow> p \<notin> set files \<Longrightarrow> fs' p = fs p"
proof (induction files arbitrary: fs)
  case Nil
  then show ?case by simp
next
  case (Cons f fs0)
  obtain fs1 r1 where step: "migrate_file load dump fs f = (fs1, r1)"
    by (cases "migrate_file load dump fs f")
  with Cons.prems(2) have keep: "fs1 p = fs p"
    by (auto dest: migrate_file_other)
  show ?case
  proof (cases r1)
    case (Inl e)
    with step Cons.prems(1) keep show ?thesis by simp
  next
    case (Inr u)
    with step Cons.prems(1) have "migrate_files load dump fs1 fs0 = (fs', r)" by simp
    with Cons.IH Cons.prems(2) keep show ?thesis by simp
  qed
qed

lemma migrate_files_append:
  "migrate_files load dump fs pre = (fs1, Inr u) \<Longrightarrow>
   migrate_files load dump fs (pre @ rest) = migrate_files load dump fs1 rest"
  by (induction pre arbitrary: fs) (auto split: prod.splits sum.splits)

section \<open>Scalars\<close>

text \<open>
  Claim C6. A scalar (null, boolean, integer, float or string) is returned unchanged. A
  string value is returned verbatim whatever it contains: the value \<^verbatim>\<open>"bloqade.not_a_key"\<close>
  under the key \<^verbatim>\<open>"bloqade.x"\<close> is kept while its key is rewritten.
\<close>

theorem walk_scalar:
  "walk JNull = JNull \<and> walk (JBool b) = JBool b \<and> walk (JInt i) = JInt i \<and>
   walk (JFloat f) = JFloat f \<and> walk (JStr s) = JStr s \<and>
   walk (JDict [(''bloqade.x'', JStr ''bloqade.not_a_key'')]) =
     JDict [(''bloqade.analog.x'', JStr ''bloqade.not_a_key'')]"
  by (simp add: walk_JDict renamed_def migrate_key_def startswith_def OLD_def NEW_def)

section \<open>Idempotence\<close>

text \<open>
  Claim C2. Walking a document twice gives what walking it once gives: after one walk every
  key either starts with the new prefix or does not start with the old one, so the second
  walk changes no key, and the keys of each dictionary are already distinct, so the second
  walk stores each item where it was.
\<close>

theorem walk_idem: "walk (walk x) = walk x"
proof (induction x)
  case (JList xs)
  then show ?case by simp
next
  case (JDict items)
  let ?out = "assign_all [] (renamed items)"
  have sub: "set ?out \<subseteq> set (renamed items)"
    using set_assign_all [of "[]" "renamed items"] by simp
  have same: "(case kv of (key, value) \<Rightarrow> (migrate_key key, walk value)) = kv" if "kv \<in> set ?out" for kv
  proof -
    from that sub obtain k v where kv: "kv = (migrate_key k, walk v)" and mem: "(k, v) \<in> set items"
      by (auto simp: renamed_def)
    from mem JDict.IH [of "(k, v)" v] have "walk (walk v) = walk v" by simp
    with kv show ?thesis by (simp add: migrate_key_idem)
  qed
  have "map (\<lambda>(key, value). (migrate_key key, walk value)) ?out = ?out"
    by (rule map_idI) (rule same)
  then have "renamed ?out = ?out"
    by (simp only: renamed_def [of ?out])
  moreover have "assign_all [] ?out = ?out"
    by (rule assign_all_fresh [of "[]", simplified]) (simp add: distinct_assign_all)
  ultimately show ?case by (simp only: walk_JDict)
qed simp_all

section \<open>Lists\<close>

text \<open>
  Claim C7. The walk of a list is a list of the same length whose element at each index is the
  walk of the element of the input at that index, in the same order; the elements are
  transformed, as on the list of a dictionary and a string, where the key of the dictionary
  is renamed and the string is kept.
\<close>

theorem walk_list:
  "(\<exists>ys. walk (JList xs) = JList ys \<and> length ys = length xs \<and>
        (\<forall>i<length xs. ys ! i = walk (xs ! i))) \<and>
   walk (JList [JDict [(''bloqade.c'', JInt 3)], JStr ''bloqade.s'']) =
     JList [JDict [(''bloqade.analog.c'', JInt 3)], JStr ''bloqade.s'']"
  by (simp add: walk_JDict renamed_def migrate_key_def startswith_def OLD_def NEW_def)

theorem walk_list_witness:
  "(0::nat) < length [JDict [(''bloqade.a'', JInt 1)], JStr ''bloqade.b'', JList [JDict [(''bloqade.analog.d'', JNull), (''bloqade.e'', JNull)]]] \<and>
   (\<exists>ys. walk (JList [JDict [(''bloqade.a'', JInt 1)], JStr ''bloqade.b'', JList [JDict [(''bloqade.analog.d'', JNull), (''bloqade.e'', JNull)]]]) = JList ys \<and>
         length ys = 3 \<and>
         ys ! 0 = JDict [(''bloqade.analog.a'', JInt 1)] \<and>
         ys ! 1 = JStr ''bloqade.b'' \<and>
         ys ! 2 = JList [JDict [(''bloqade.analog.d'', JNull), (''bloqade.analog.e'', JNull)]])"
  using walk_list [of "[JDict [(''bloqade.a'', JInt 1)], JStr ''bloqade.b'', JList [JDict [(''bloqade.analog.d'', JNull), (''bloqade.e'', JNull)]]]"]
  by (simp add: walk_JDict renamed_def migrate_key_def startswith_def OLD_def NEW_def)

section \<open>Replacement of the old prefix\<close>

text \<open>
  Claim C1 says that the old prefix is replaced at the start of the key only and that a later
  occurrence of \<^verbatim>\<open>"bloqade."\<close> stays. \<^verbatim>\<open>str.replace\<close> is called without a count, so on the
  key \<^verbatim>\<open>"bloqade.x.bloqade.y"\<close> the second occurrence is replaced as well: the walk returns
  \<^verbatim>\<open>"bloqade.analog.x.bloqade.analog.y"\<close>, not the key with its first eight characters
  exchanged for the new prefix.
\<close>

theorem walk_replaces_every_occurrence:
  "walk (JDict [(''bloqade.x.bloqade.y'', JInt 1)]) =
     JDict [(''bloqade.analog.x.bloqade.analog.y'', JInt 1)] \<and>
   ''bloqade.analog.x.bloqade.analog.y'' \<noteq> NEW @ drop (length OLD) ''bloqade.x.bloqade.y''"
  by (simp add: walk_JDict renamed_def migrate_key_def startswith_def OLD_def NEW_def)

text \<open>
  The same call rewrites \<^verbatim>\<open>"bloqade.bloqade.analog.x"\<close>, a key that starts with the old prefix
  only, into a key with the segment \<^verbatim>\<open>"bloqade.analog.analog."\<close>.
\<close>

lemma walk_doubles_later_segment:
  "walk (JDict [(''bloqade.bloqade.analog.x'', JInt 1)]) =
     JDict [(''bloqade.analog.bloqade.analog.analog.x'', JInt 1)] \<and>
   contains ''bloqade.analog.bloqade.analog.analog.x'' ''bloqade.analog.analog.'' \<and>
   \<not> contains ''bloqade.bloqade.analog.x'' ''bloqade.analog.analog.''"
  by (simp add: walk_JDict renamed_def migrate_key_def startswith_def OLD_def NEW_def)

section \<open>Keys under the new prefix\<close>



section \<open>Shape\<close>

text \<open>
  Claim C3 as stated: the output has the shape of the input, each dictionary with as many
  items as before. It fails where two keys of a dictionary migrate to the same key: the
  dictionary below has two items, its walk has one, and the scalar \<open>1\<close> is gone.
\<close>

theorem walk_collision_loses_item:
  "walk (JDict [(''bloqade.foo'', JInt 1), (''bloqade.analog.foo'', JInt 2)]) =
     JDict [(''bloqade.analog.foo'', JInt 2)] \<and>
   \<not> same_shape (JDict [(''bloqade.foo'', JInt 1), (''bloqade.analog.foo'', JInt 2)])
        (walk (JDict [(''bloqade.foo'', JInt 1), (''bloqade.analog.foo'', JInt 2)]))"
  by (simp add: walk_JDict renamed_def migrate_key_def startswith_def OLD_def NEW_def)

text \<open>
  Claim C3, amended: for a document none of whose dictionaries has two keys that migrate to
  the same key, the walk has the shape of the document.
\<close>

theorem walk_same_shape: "collision_free x \<Longrightarrow> same_shape x (walk x)"
proof (induction x)
  case (JList xs)
  then show ?case by (auto simp: list_all_iff intro: same_shape_list_map)
next
  case (JDict items)
  then have "same_shape_items items (renamed items)"
    by (intro same_shape_items_renamed) (fastforce simp: list_all_iff)
  with JDict.prems show ?case
    by (simp add: walk_JDict renamed_collision_free)
qed simp_all

theorem walk_same_shape_witness:
  "collision_free (JDict [(''bloqade.a'', JList [JInt 1, JDict [(''bloqade.analog.b'', JNull), (''c'', JBool True)]])]) \<and>
   same_shape (JDict [(''bloqade.a'', JList [JInt 1, JDict [(''bloqade.analog.b'', JNull), (''c'', JBool True)]])])
     (walk (JDict [(''bloqade.a'', JList [JInt 1, JDict [(''bloqade.analog.b'', JNull), (''c'', JBool True)]])]))"
  using walk_same_shape [of "JDict [(''bloqade.a'', JList [JInt 1, JDict [(''bloqade.analog.b'', JNull), (''c'', JBool True)]])]"]
  by (simp add: migrate_key_def startswith_def OLD_def NEW_def)

section \<open>Keys outside both prefixes\<close>

text \<open>
  Claim C5. In a dictionary (its keys are distinct), an item whose key starts with neither
  prefix keeps its key, and the walk of the dictionary holds the walk of the item's value
  under that key.
\<close>

theorem other_key_kept:
  assumes "distinct (map fst items)" and "(k, v) \<in> set items"
    and "\<not> startswith k OLD" and "\<not> startswith k NEW"
  shows "migrate_key k = k \<and>
         (\<exists>out. walk (JDict items) = JDict out \<and> map_of out k = Some (walk v))"
proof -
  have k: "migrate_key k = k"
    using assms(3) by (rule migrate_key_other)
  have "v2 = v" if "(k2, v2) \<in> set items" "migrate_key k2 = migrate_key k" for k2 v2
  proof -
    from that(2) k assms(3) have "k2 = k" by (simp add: migrate_key_to_other)
    with that(1) assms(1,2) show ?thesis by (auto dest: eq_key_imp_eq_value)
  qed
  with assms(2) have "map_of (assign_all [] (renamed items)) (migrate_key k) = Some (walk v)"
    by (rule map_of_walk_items)
  with k show ?thesis by (simp add: walk_JDict)
qed

theorem other_key_kept_witness:
  "distinct (map fst [(''bloqade.a'', JInt 1), (''other.key'', JDict [(''bloqade.c'', JInt 3)])]) \<and>
   (''other.key'', JDict [(''bloqade.c'', JInt 3)])
     \<in> set [(''bloqade.a'', JInt 1), (''other.key'', JDict [(''bloqade.c'', JInt 3)])] \<and>
   \<not> startswith ''other.key'' OLD \<and> \<not> startswith ''other.key'' NEW \<and>
   migrate_key ''other.key'' = ''other.key'' \<and>
   (\<exists>out. walk (JDict [(''bloqade.a'', JInt 1), (''other.key'', JDict [(''bloqade.c'', JInt 3)])]) = JDict out \<and>
      map_of out ''other.key'' = Some (JDict [(''bloqade.analog.c'', JInt 3)]))"
  using other_key_kept [of "[(''bloqade.a'', JInt 1), (''other.key'', JDict [(''bloqade.c'', JInt 3)])]"
      "''other.key''" "JDict [(''bloqade.c'', JInt 3)]"]
  by (simp add: walk_JDict renamed_def migrate_key_def startswith_def OLD_def NEW_def)

section \<open>Colliding keys\<close>

text \<open>
  Claim C10. When the keys of two items of a dictionary migrate to the same key, the walk has
  one item under that key, its value is the walk of the value of the last item (in iteration
  order) whose key migrates to it, and the walk has fewer items than the dictionary.
\<close>

theorem colliding_keys_last_wins:
  assumes "i < j" and "j < length items"
    and "migrate_key (fst (items ! i)) = migrate_key (fst (items ! j))"
    and "\<forall>m. j < m \<and> m < length items \<longrightarrow>
           migrate_key (fst (items ! m)) \<noteq> migrate_key (fst (items ! j))"
  shows "\<exists>out. walk (JDict items) = JDict out \<and>
           map_of out (migrate_key (fst (items ! j))) = Some (walk (snd (items ! j))) \<and>
           length (filter (\<lambda>(k, v). k = migrate_key (fst (items ! j))) out) = 1 \<and>
           length out < length items"
proof -
  let ?out = "assign_all [] (renamed items)"
  let ?l = "renamed items"
  let ?k = "migrate_key (fst (items ! j))"
  have nth: "?l ! m = (migrate_key (fst (items ! m)), walk (snd (items ! m)))" if "m < length items" for m
    using that by (simp add: renamed_def case_prod_unfold)
  have len: "length ?l = length items" by (simp add: renamed_def)
  have "\<forall>m. j < m \<and> m < length ?l \<longrightarrow> fst (?l ! m) \<noteq> fst (?l ! j)"
    using assms(2,4) by (simp add: nth len)
  with assms(2) have "map_of (rev ?l) (fst (?l ! j)) = Some (snd (?l ! j))"
    by (intro map_of_rev_last) (simp_all add: len)
  with assms(2) have val: "map_of ?out ?k = Some (walk (snd (items ! j)))"
    by (simp add: nth map_of_assign_all)
  have "?k \<in> fst ` set ?out"
    using val by (metis domI dom_map_of_conv_image_fst)
  then have one: "length (filter (\<lambda>(k, v). k = ?k) ?out) = 1"
    by (intro filter_key_distinct) (simp_all add: distinct_assign_all)
  let ?ks = "map (\<lambda>(k, v). migrate_key k) items"
  have "\<not> distinct ?ks"
  proof
    assume "distinct ?ks"
    moreover from assms have "i < length ?ks" "j < length ?ks" "?ks ! i = ?ks ! j"
      by (simp_all add: case_prod_unfold)
    ultimately have "i = j" by (metis nth_eq_iff_index_eq)
    with assms(1) show False by simp
  qed
  then have "card (set ?ks) \<noteq> length ?ks"
    by (metis card_distinct)
  with card_length [of ?ks] have "card (set ?ks) < length items" by simp
  then have "length ?out < length items" by (simp add: length_walk_items)
  with val one show ?thesis by (simp add: walk_JDict)
qed

theorem colliding_keys_last_wins_witness:
  "(0::nat) < 2 \<and>
   (2::nat) < length [(''bloqade.foo'', JInt 1), (''x'', JNull), (''bloqade.analog.foo'', JList [JDict [(''bloqade.a'', JInt 3)]])] \<and>
   migrate_key ''bloqade.foo'' = migrate_key ''bloqade.analog.foo'' \<and>
   (\<exists>out. walk (JDict [(''bloqade.foo'', JInt 1), (''x'', JNull), (''bloqade.analog.foo'', JList [JDict [(''bloqade.a'', JInt 3)]])]) = JDict out \<and>
      map_of out ''bloqade.analog.foo'' = Some (JList [JDict [(''bloqade.analog.a'', JInt 3)]]) \<and>
      length (filter (\<lambda>(k, v). k = ''bloqade.analog.foo'') out) = 1 \<and>
      length out < 3)"
  using colliding_keys_last_wins [of 0 2
      "[(''bloqade.foo'', JInt 1), (''x'', JNull), (''bloqade.analog.foo'', JList [JDict [(''bloqade.a'', JInt 3)]])]"]
  by (simp add: walk_JDict renamed_def migrate_key_def startswith_def OLD_def NEW_def)

section \<open>No structural error\<close>

text \<open>
  Claim C8 as stated: the walk returns on every JSON document. It fails on deep nesting: the
  document of 600 nested lists needs 1201 frames where a comprehension takes a frame, and
  the document of 1000 nested lists needs 1001 frames where it takes none; with the 1000
  frames of the default limit the walk raises \<^verbatim>\<open>RecursionError\<close> on both.
\<close>

theorem walk_py_recursion_error:
  "walk_py 1 1000 (to_py (nest 600)) = Inl RecursionError \<and>
   walk_py 0 1000 (to_py (nest 1000)) = Inl RecursionError"
  by (simp add: walk_py_frames frames_nest)

text \<open>
  Claim C8, amended: on every JSON document (a dictionary with string keys, a list or a
  scalar) whose walk needs no more frames than the interpreter has left, the untyped walk
  raises nothing: it returns, and what it returns is the document that \<open>walk\<close> computes.
\<close>

theorem walk_py_json: "frames c x \<le> n \<Longrightarrow> walk_py c n (to_py x) = Inr (to_py (walk x))"
  by (simp add: walk_py_frames)

theorem walk_py_json_witness:
  "frames 1 (JDict [(''bloqade.a'', JList [JDict [(''bloqade.b'', JInt 3)], JNull])]) \<le> 1000 \<and>
   walk_py 1 1000 (to_py (JDict [(''bloqade.a'', JList [JDict [(''bloqade.b'', JInt 3)], JNull])])) =
     Inr (PDict [(PStr ''bloqade.analog.a'', PList [PDict [(PStr ''bloqade.analog.b'', PInt 3)], PNone])])"
  using walk_py_json [of 1 "JDict [(''bloqade.a'', JList [JDict [(''bloqade.b'', JInt 3)], JNull])]" 1000]
  by (simp add: walk_JDict renamed_def migrate_key_def startswith_def OLD_def NEW_def)

section \<open>Parse errors\<close>

text \<open>
  Claim C9. When the files before \<open>file\<close> have been migrated and the content of \<open>file\<close>
  does not parse, the run ends with the exception that \<open>load\<close> raised, no later file is
  processed, and the content of \<open>file\<close> is what it was before the run.
\<close>

theorem parse_error_propagates:
  assumes "migrate_files load dump fs pre = (fs1, Inr ())" and "file \<notin> set pre"
    and "fs file = Some content" and "load content = Inl e"
  shows "migrate_files load dump fs (pre @ file # post) = (fs1, Inl e) \<and> fs1 file = Some content"
proof -
  from assms(1,2,3) have here: "fs1 file = Some content"
    by (simp add: migrate_files_other)
  with assms(4) have "migrate_file load dump fs1 file = (fs1, Inl e)"
    by (simp add: migrate_file_def)
  then have "migrate_files load dump fs1 (file # post) = (fs1, Inl e)" by simp
  with assms(1) here show ?thesis by (simp add: migrate_files_append)
qed

theorem parse_error_propagates_witness:
  "migrate_files (\<lambda>s. if s = ''{}'' then Inr (JDict []) else Inl (JSONDecodeError ''Expecting value''))
     (\<lambda>d. ''{}'') [''a.json'' \<mapsto> ''{}'', ''b.json'' \<mapsto> ''{'']
     [''a.json''] = ([''a.json'' \<mapsto> ''{}'', ''b.json'' \<mapsto> ''{''], Inr ()) \<and>
   ''b.json'' \<notin> set [''a.json''] \<and>
   [''a.json'' \<mapsto> ''{}'', ''b.json'' \<mapsto> ''{''] ''b.json'' = Some ''{'' \<and>
   (if ''{'' = ''{}'' then Inr (JDict []) else Inl (JSONDecodeError ''Expecting value'')) = Inl (JSONDecodeError ''Expecting value'') \<and>
   migrate_files (\<lambda>s. if s = ''{}'' then Inr (JDict []) else Inl (JSONDecodeError ''Expecting value''))
     (\<lambda>d. ''{}'') [''a.json'' \<mapsto> ''{}'', ''b.json'' \<mapsto> ''{'']
     ([''a.json''] @ ''b.json'' # [''c.json'']) =
     ([''a.json'' \<mapsto> ''{}'', ''b.json'' \<mapsto> ''{''], Inl (JSONDecodeError ''Expecting value'')) \<and>
   [''a.json'' \<mapsto> ''{}'', ''b.json'' \<mapsto> ''{''] ''b.json'' = Some ''{''"
  using parse_error_propagates [of
      "\<lambda>s. if s = ''{}'' then Inr (JDict []) else Inl (JSONDecodeError ''Expecting value'')"
      "\<lambda>d. ''{}''" "[''a.json'' \<mapsto> ''{}'', ''b.json'' \<mapsto> ''{'']" "[''a.json'']"
      "[''a.json'' \<mapsto> ''{}'', ''b.json'' \<mapsto> ''{'']" "''b.json''" "''{''" "JSONDecodeError ''Expecting value''" "[''c.json'']"]
  by (simp add: migrate_file_def walk_JDict renamed_def fun_upd_idem)

end
